theory Spec2Isabelle
  imports Complex_Main
begin

section \<open>Values of the notebook's Python\<close>

text \<open>
  The program is the code cell of \<^verbatim>\<open>notebooks/Diversity optimizer.ipynb\<close>: the
  functions \<^verbatim>\<open>obj\<close>, \<^verbatim>\<open>_entrofy\<close> and \<^verbatim>\<open>entrofy\<close>. An exception is a value of
  type \<open>error\<close>. Every \<^verbatim>\<open>assert\<close> of the source raises the same bare
  \<^verbatim>\<open>AssertionError\<close> (no message); numpy raises \<^verbatim>\<open>ValueError\<close> for shapes that
  do not fit and for unpacking an array of the wrong length, and \<^verbatim>\<open>IndexError\<close> for
  an index out of range.
\<close>

datatype error = AssertionError | ValueError | IndexError

text \<open>
  A float64 is a real number or one of the special values. Finite arithmetic is exact
  (no rounding, no overflow); the special values follow IEEE 754, without a signed zero.
\<close>

datatype float = NaN | NegInf | PosInf | Fin real

fun fneg :: "float \<Rightarrow> float" where
  "fneg (Fin a) = Fin (- a)"
| "fneg NegInf = PosInf"
| "fneg PosInf = NegInf"
| "fneg NaN = NaN"

fun fadd :: "float \<Rightarrow> float \<Rightarrow> float" where
  "fadd (Fin a) (Fin b) = Fin (a + b)"
| "fadd NaN y = NaN"
| "fadd x NaN = NaN"
| "fadd PosInf NegInf = NaN"
| "fadd NegInf PosInf = NaN"
| "fadd PosInf y = PosInf"
| "fadd x PosInf = PosInf"
| "fadd NegInf y = NegInf"
| "fadd x NegInf = NegInf"

definition fsub :: "float \<Rightarrow> float \<Rightarrow> float" where
  "fsub x y = fadd x (fneg y)"

text \<open>The sign of a float that is not NaN: \<open>-1\<close>, \<open>0\<close> or \<open>1\<close>.\<close>

fun fsgn :: "float \<Rightarrow> int" where
  "fsgn (Fin a) = (if a < 0 then - 1 else if a = 0 then 0 else 1)"
| "fsgn NegInf = - 1"
| "fsgn PosInf = 1"
| "fsgn NaN = 0"

definition inf_of_sign :: "int \<Rightarrow> float" where
  "inf_of_sign s = (if s = 0 then NaN else if s < 0 then NegInf else PosInf)"

fun fmul :: "float \<Rightarrow> float \<Rightarrow> float" where
  "fmul (Fin a) (Fin b) = Fin (a * b)"
| "fmul NaN y = NaN"
| "fmul x NaN = NaN"
| "fmul x y = inf_of_sign (fsgn x * fsgn y)"

fun fdiv :: "float \<Rightarrow> float \<Rightarrow> float" where
  "fdiv (Fin a) (Fin b) = (if b = 0 then inf_of_sign (fsgn (Fin a)) else Fin (a / b))"
| "fdiv NaN y = NaN"
| "fdiv x NaN = NaN"
| "fdiv (Fin a) y = Fin 0"
| "fdiv x (Fin b) = inf_of_sign (fsgn x * (if b < 0 then - 1 else 1))"
| "fdiv x y = NaN"

text \<open>\<^verbatim>\<open>np.log\<close>: \<open>-inf\<close> at zero, NaN below it (numpy warns and goes on).\<close>

fun flog :: "float \<Rightarrow> float" where
  "flog (Fin a) = (if 0 < a then Fin (ln a) else if a = 0 then NegInf else NaN)"
| "flog PosInf = PosInf"
| "flog NegInf = NaN"
| "flog NaN = NaN"

text \<open>The comparisons \<^verbatim>\<open><=\<close> and \<^verbatim>\<open>>\<close>: false as soon as one side is NaN.\<close>

fun fle :: "float \<Rightarrow> float \<Rightarrow> bool" where
  "fle (Fin a) (Fin b) = (a \<le> b)"
| "fle NaN y = False"
| "fle x NaN = False"
| "fle NegInf y = True"
| "fle x PosInf = True"
| "fle x y = False"

fun fgt :: "float \<Rightarrow> float \<Rightarrow> bool" where
  "fgt (Fin a) (Fin b) = (a > b)"
| "fgt NaN y = False"
| "fgt x NaN = False"
| "fgt NegInf y = False"
| "fgt x PosInf = False"
| "fgt x y = True"

section \<open>The objective function\<close>

text \<open>
  \<^verbatim>\<open>
  def obj(p, w, q):
      amin = 1e-200
      pbar = 1. - p
      qbar = 1. - q
      H = p * (np.log(p + amin) - np.log(q + amin)) + pbar * (np.log(pbar + amin) - np.log(qbar + amin))
      return - H.dot(w)
  \<close>
  The arguments are one-dimensional arrays: \<open>p\<close> of floats (it is NaN when it is the mean
  of no rows), \<open>w\<close> and \<open>q\<close> of finite numbers, as the caller supplies them. The
  elementwise operations between \<open>p\<close> and \<open>q\<close> follow numpy's broadcasting: two
  lengths fit when they are equal or one of them is 1. \<^verbatim>\<open>dot\<close> does not broadcast.
\<close>

definition amin :: real where
  "amin = 1 / 10 ^ 200"

definition broadcast :: "'a list \<Rightarrow> 'b list \<Rightarrow> error + ('a \<times> 'b) list" where
  "broadcast xs ys =
     (if length xs = length ys then Inr (zip xs ys)
      else if length xs = 1 then Inr (map (\<lambda>y. (hd xs, y)) ys)
      else if length ys = 1 then Inr (map (\<lambda>x. (x, hd ys)) xs)
      else Inl ValueError)"

definition H_entry :: "float \<Rightarrow> real \<Rightarrow> float" where
  "H_entry p q =
     (let pbar = fsub (Fin 1) p;
          qbar = 1 - q
      in fadd (fmul p (fsub (flog (fadd p (Fin amin))) (flog (Fin (q + amin)))))
              (fmul pbar (fsub (flog (fadd pbar (Fin amin))) (flog (Fin (qbar + amin))))))"

definition dot :: "float list \<Rightarrow> real list \<Rightarrow> error + float" where
  "dot h w =
     (if length h = length w
      then Inr (foldl fadd (Fin 0) (map (\<lambda>(a, b). fmul a (Fin b)) (zip h w)))
      else Inl ValueError)"

definition obj :: "float list \<Rightarrow> real list \<Rightarrow> real list \<Rightarrow> error + float" where
  "obj p w q =
     (case broadcast p q of
        Inl e \<Rightarrow> Inl e
      | Inr pq \<Rightarrow>
          (case dot (map (\<lambda>(a, b). H_entry a b) pq) w of
             Inl e \<Rightarrow> Inl e
           | Inr d \<Rightarrow> Inr (fneg d)))"

section \<open>One greedy run\<close>

text \<open>
  The attribute matrix \<open>X\<close> is a two-dimensional boolean array: its shape and its
  entries. Row \<open>e\<close> is \<^verbatim>\<open>X[e]\<close>.
\<close>

record matrix =
  n_participants :: nat
  n_attributes :: nat
  entry :: "nat \<Rightarrow> nat \<Rightarrow> bool"

definition row :: "matrix \<Rightarrow> nat \<Rightarrow> bool list" where
  "row X e = map (entry X e) [0..<n_attributes X]"

text \<open>\<^verbatim>\<open>y.sum()\<close> and \<^verbatim>\<open>np.flatnonzero(y)\<close> of a boolean mask.\<close>

definition mask_sum :: "bool list \<Rightarrow> nat" where
  "mask_sum y = length (filter (\<lambda>b. b) y)"

definition flatnonzero :: "bool list \<Rightarrow> nat list" where
  "flatnonzero y = filter (\<lambda>e. y ! e) [0..<length y]"

text \<open>
  \<^verbatim>\<open>np.nanmean(X[y], axis=0)\<close>: the mean of every column over the selected rows. Over
  no rows numpy warns and returns NaN in every column.
\<close>

definition nanmean :: "matrix \<Rightarrow> bool list \<Rightarrow> float list" where
  "nanmean X y =
     (let rows = map (row X) (flatnonzero y)
      in map (\<lambda>j. if rows = [] then NaN
                   else Fin (sum_list (map (\<lambda>r. of_bool (r ! j)) rows) / real (length rows)))
             [0..<n_attributes X])"

text \<open>
  \<^verbatim>\<open>p_new = (p * i + X) / (i + 1.0)\<close>, row \<open>e\<close> of it, and the marginal gains
  \<^verbatim>\<open>delta = obj(p_new, w, q) - obj(p, w, q)\<close>: \<^verbatim>\<open>obj\<close> on the two-dimensional
  \<open>p_new\<close> is \<^verbatim>\<open>obj\<close> on each of its rows. Then \<^verbatim>\<open>delta[y] = -np.inf\<close>.
\<close>

definition p_new_row :: "matrix \<Rightarrow> float list \<Rightarrow> nat \<Rightarrow> nat \<Rightarrow> float list" where
  "p_new_row X p i e =
     map (\<lambda>(pj, x). fdiv (fadd (fmul pj (Fin (real i))) (Fin (of_bool x))) (Fin (real i + 1)))
         (zip p (row X e))"

fun collect :: "(error + 'a) list \<Rightarrow> error + 'a list" where
  "collect [] = Inr []"
| "collect (r # rs) =
     (case r of
        Inl e \<Rightarrow> Inl e
      | Inr v \<Rightarrow> (case collect rs of Inl e \<Rightarrow> Inl e | Inr vs \<Rightarrow> Inr (v # vs)))"

definition knock_out :: "bool list \<Rightarrow> float list \<Rightarrow> float list" where
  "knock_out y delta = map (\<lambda>(taken, d). if taken then NegInf else d) (zip y delta)"

definition marginal_gains :: "matrix \<Rightarrow> real list \<Rightarrow> real list \<Rightarrow> bool list \<Rightarrow> error + float list" where
  "marginal_gains X w q y =
     (let i = mask_sum y;
          p = nanmean X y
      in case collect (map (\<lambda>e. obj (p_new_row X p i e) w q) [0..<n_participants X]) of
           Inl e \<Rightarrow> Inl e
         | Inr new \<Rightarrow>
             (case obj p w q of
                Inl e \<Rightarrow> Inl e
              | Inr old \<Rightarrow> Inr (knock_out y (map (\<lambda>v. fsub v old) new))))"

text \<open>
  \<^verbatim>\<open>np.argmax\<close> of a float array, as numpy scans it: the running maximum is replaced
  by an entry \<open>x\<close> when \<^verbatim>\<open>!(x <= max)\<close>, and the scan stops at the first NaN. So the
  result is the first NaN when there is one, and the first occurrence of the maximum
  otherwise. An empty array raises \<^verbatim>\<open>ValueError\<close>.
\<close>

fun argmax_scan :: "float \<Rightarrow> nat \<Rightarrow> nat \<Rightarrow> float list \<Rightarrow> nat" where
  "argmax_scan mp mi i [] = mi"
| "argmax_scan mp mi i (x # xs) =
     (if \<not> fle x mp
      then (if x = NaN then i else argmax_scan x i (Suc i) xs)
      else argmax_scan mp mi (Suc i) xs)"

definition argmax :: "float list \<Rightarrow> error + nat" where
  "argmax d =
     (case d of
        [] \<Rightarrow> Inl ValueError
      | x # xs \<Rightarrow> Inr (if x = NaN then 0 else argmax_scan x 0 1 xs))"

text \<open>
  The body of the \<^verbatim>\<open>while True\<close> loop after its exit test, and the loop:
  \<^verbatim>\<open>
      while True:
          i = y.sum()
          if i >= k:
              break
          p = np.nanmean(X[y], axis=0)
          p_new = (p * i + X) / (i + 1.0)
          delta = obj(p_new, w, q) - obj(p, w, q)
          delta[y] = -np.inf
          y[np.argmax(delta)] = True
  \<close>
  The loop has no bound of its own, so it is a partial function: \<open>None\<close> is a run that
  never leaves the loop.
\<close>

definition greedy_step :: "matrix \<Rightarrow> real list \<Rightarrow> real list \<Rightarrow> bool list \<Rightarrow> error + bool list" where
  "greedy_step X w q y =
     (case marginal_gains X w q y of
        Inl e \<Rightarrow> Inl e
      | Inr delta \<Rightarrow>
          (case argmax delta of
             Inl e \<Rightarrow> Inl e
           | Inr a \<Rightarrow> Inr (y[a := True])))"

partial_function (option) greedy_loop ::
  "matrix \<Rightarrow> int \<Rightarrow> real list \<Rightarrow> real list \<Rightarrow> bool list \<Rightarrow> (error + bool list) option" where
  "greedy_loop X k w q y =
     (if int (mask_sum y) \<ge> k then Some (Inr y)
      else case greedy_step X w q y of
             Inl e \<Rightarrow> Some (Inl e)
           | Inr y' \<Rightarrow> greedy_loop X k w q y')"

section \<open>The function \<^verbatim>\<open>_entrofy\<close>\<close>

text \<open>
  The global random generator of numpy is a state: the stream of numbers it will still
  produce. \<^verbatim>\<open>np.random.choice(n, size=1)\<close> consumes one of them and yields a row
  index below \<open>n\<close>; every row can come out.
\<close>

type_synonym rng = "nat \<Rightarrow> nat"

definition random_choice :: "nat \<Rightarrow> rng \<Rightarrow> nat \<times> rng" where
  "random_choice n g = (g 0 mod n, \<lambda>t. g (Suc t))"

text \<open>
  \<^verbatim>\<open>y[pre_selects] = True\<close> with a list of integers: numpy counts a negative index
  from the end and raises \<^verbatim>\<open>IndexError\<close> outside \<open>[-n, n)\<close>.
\<close>

definition np_index :: "nat \<Rightarrow> int \<Rightarrow> error + nat" where
  "np_index n i =
     (if 0 \<le> i \<and> i < int n then Inr (nat i)
      else if - int n \<le> i \<and> i < 0 then Inr (nat (i + int n))
      else Inl IndexError)"

fun assign_true :: "bool list \<Rightarrow> int list \<Rightarrow> error + bool list" where
  "assign_true y [] = Inr y"
| "assign_true y (i # rest) =
     (case np_index (length y) i of
        Inl e \<Rightarrow> Inl e
      | Inr j \<Rightarrow> assign_true (y[j := True]) rest)"

text \<open>
  What \<^verbatim>\<open>_entrofy\<close> returns: the bare array \<^verbatim>\<open>np.arange(n_participants)\<close> when
  \<open>k\<close> is the number of rows, and the pair of a score and an array otherwise.
  \<^verbatim>\<open>
  def _entrofy(X, k, w=None, q=None, pre_selects=None):
      n_participants, n_attributes = X.shape
      if w is None:
          w = np.ones(n_attributes)
      if q is None:
          q = 0.5 * np.ones(n_attributes)
      assert 0 < k <= n_participants
      assert not np.any(w < 0)
      assert np.all(q >= 0.0) and np.all(q <= 1.0)
      assert len(w) == n_attributes
      assert len(q) == n_attributes
      if k == n_participants:
          return np.arange(n_participants)
      y = np.zeros(n_participants, dtype=bool)
      if pre_selects is None:
          pre_selects = np.random.choice(n_participants, size=1)
      y[pre_selects] = True
      while True: ...
      return obj(np.nanmean(X[y], axis=0), w, q), np.flatnonzero(y)
  \<close>
  The name \<open>u_entrofy\<close> stands for \<^verbatim>\<open>_entrofy\<close> (a name cannot start with an
  underscore here).
\<close>

datatype ret = RetArray "nat list" | RetTuple float "nat list"

definition default_w :: "nat \<Rightarrow> real list option \<Rightarrow> real list" where
  "default_w f w = (case w of None \<Rightarrow> replicate f 1 | Some w' \<Rightarrow> w')"

definition default_q :: "nat \<Rightarrow> real list option \<Rightarrow> real list" where
  "default_q f q = (case q of None \<Rightarrow> replicate f (1 / 2) | Some q' \<Rightarrow> q')"

definition seed_rows :: "nat \<Rightarrow> int list option \<Rightarrow> rng \<Rightarrow> int list \<times> rng" where
  "seed_rows n pre_selects g =
     (case pre_selects of
        None \<Rightarrow> (let (r, g') = random_choice n g in ([int r], g'))
      | Some ps \<Rightarrow> (ps, g))"

definition u_entrofy ::
  "matrix \<Rightarrow> int \<Rightarrow> real list option \<Rightarrow> real list option \<Rightarrow> int list option \<Rightarrow> rng
     \<Rightarrow> ((error + ret) \<times> rng) option" where
  "u_entrofy X k w_arg q_arg pre_selects g =
     (let n = n_participants X;
          f = n_attributes X;
          w = default_w f w_arg;
          q = default_q f q_arg
      in if \<not> (0 < k \<and> k \<le> int n) then Some (Inl AssertionError, g)
         else if list_ex (\<lambda>x. x < 0) w then Some (Inl AssertionError, g)
         else if \<not> (list_all (\<lambda>x. x \<ge> 0) q \<and> list_all (\<lambda>x. x \<le> 1) q)
           then Some (Inl AssertionError, g)
         else if length w \<noteq> f then Some (Inl AssertionError, g)
         else if length q \<noteq> f then Some (Inl AssertionError, g)
         else if k = int n then Some (Inr (RetArray [0..<n]), g)
         else
           (let (pre, g') = seed_rows n pre_selects g
            in case assign_true (replicate n False) pre of
                 Inl e \<Rightarrow> Some (Inl e, g')
               | Inr y \<Rightarrow>
                   (case greedy_loop X k w q y of
                      None \<Rightarrow> None
                    | Some (Inl e) \<Rightarrow> Some (Inl e, g')
                    | Some (Inr y') \<Rightarrow>
                        (case obj (nanmean X y') w q of
                           Inl e \<Rightarrow> Some (Inl e, g')
                         | Inr score \<Rightarrow> Some (Inr (RetTuple score (flatnonzero y')), g')))))"

section \<open>The entry point \<^verbatim>\<open>entrofy\<close>\<close>

text \<open>
  \<^verbatim>\<open>
  def entrofy(X, k, w=None, q=None, pre_selects=None, n_samples=15):
      if pre_selects is not None:
          n_samples = 1
      results = [_entrofy(X, k, w=w, q=q, pre_selects=pre_selects) for i in range(n_samples)]
      max_score, best = results[0]
      for score, solution in results[1:]:
          if score > max_score:
              max_score = score
              best = solution
      return max_score, best
  \<close>
  The list comprehension runs the trials one after the other on the generator's state;
  an exception in a trial ends the call.
\<close>

fun trials ::
  "(rng \<Rightarrow> ((error + ret) \<times> rng) option) \<Rightarrow> nat \<Rightarrow> rng \<Rightarrow> ((error + ret list) \<times> rng) option" where
  "trials run 0 g = Some (Inr [], g)"
| "trials run (Suc m) g =
     (case run g of
        None \<Rightarrow> None
      | Some (Inl e, g') \<Rightarrow> Some (Inl e, g')
      | Some (Inr r, g') \<Rightarrow>
          (case trials run m g' of
             None \<Rightarrow> None
           | Some (Inl e, g'') \<Rightarrow> Some (Inl e, g'')
           | Some (Inr rs, g'') \<Rightarrow> Some (Inr (r # rs), g'')))"

text \<open>
  Python unpacks a result into two names: a pair gives its two components, an array
  gives its two elements when it has exactly two and raises \<^verbatim>\<open>ValueError\<close>
  otherwise. So the first name holds a float or an integer, the second an array or an
  integer.
\<close>

datatype num = NumFloat float | NumInt nat

datatype solution = SolArray "nat list" | SolInt nat

fun unpack2 :: "ret \<Rightarrow> error + (num \<times> solution)" where
  "unpack2 (RetTuple s idx) = Inr (NumFloat s, SolArray idx)"
| "unpack2 (RetArray [a, b]) = Inr (NumInt a, SolInt b)"
| "unpack2 (RetArray xs) = Inl ValueError"

fun to_float :: "num \<Rightarrow> float" where
  "to_float (NumFloat x) = x"
| "to_float (NumInt a) = Fin (real a)"

definition num_gt :: "num \<Rightarrow> num \<Rightarrow> bool" where
  "num_gt a b = fgt (to_float a) (to_float b)"

fun best_of :: "num \<times> solution \<Rightarrow> ret list \<Rightarrow> error + (num \<times> solution)" where
  "best_of (max_score, best) [] = Inr (max_score, best)"
| "best_of (max_score, best) (r # rs) =
     (case unpack2 r of
        Inl e \<Rightarrow> Inl e
      | Inr (score, sol) \<Rightarrow>
          (if num_gt score max_score then best_of (score, sol) rs
           else best_of (max_score, best) rs))"

definition entrofy ::
  "matrix \<Rightarrow> int \<Rightarrow> real list option \<Rightarrow> real list option \<Rightarrow> int list option \<Rightarrow> int \<Rightarrow> rng
     \<Rightarrow> ((error + (num \<times> solution)) \<times> rng) option" where
  "entrofy X k w q pre_selects n_samples g =
     (let n_samples = (if pre_selects \<noteq> None then 1 else n_samples)
      in case trials (u_entrofy X k w q pre_selects) (nat n_samples) g of
           None \<Rightarrow> None
         | Some (Inl e, g') \<Rightarrow> Some (Inl e, g')
         | Some (Inr results, g') \<Rightarrow>
             (case results of
                [] \<Rightarrow> Some (Inl IndexError, g')
              | r # rest \<Rightarrow>
                  (case unpack2 r of
                     Inl e \<Rightarrow> Some (Inl e, g')
                   | Inr first \<Rightarrow>
                       (case best_of first rest of
                          Inl e \<Rightarrow> Some (Inl e, g')
                        | Inr res \<Rightarrow> Some (Inr res, g')))))"

section \<open>The states of a run\<close>

text \<open>
  A probability is a finite float between 0 and 1: what the mean of a column of booleans
  over at least one row is.
\<close>

definition prob :: "float \<Rightarrow> bool" where
  "prob x = (case x of Fin a \<Rightarrow> 0 \<le> a \<and> a \<le> 1 | _ \<Rightarrow> False)"

text \<open>
  The masks \<open>y\<close> that a run started on \<open>y0\<close> holds at the head of its loop, where
  \<^verbatim>\<open>i = y.sum()\<close> is read: the first one, and the one after every iteration that
  the exit test lets through.
\<close>

inductive visits :: "matrix \<Rightarrow> int \<Rightarrow> real list \<Rightarrow> real list \<Rightarrow> bool list \<Rightarrow> bool list \<Rightarrow> bool"
  for X :: matrix and k :: int and w :: "real list" and q :: "real list" and y0 :: "bool list" where
  start: "visits X k w q y0 y0"
| iteration:
    "visits X k w q y0 y \<Longrightarrow> \<not> int (mask_sum y) \<ge> k \<Longrightarrow> greedy_step X w q y = Inr y'
       \<Longrightarrow> visits X k w q y0 y'"

text \<open>
  The order in which \<^verbatim>\<open>np.argmax\<close> (like \<^verbatim>\<open>np.max\<close>) takes its maximum: NaN
  counts as the greatest value, the other values compare as floats do.
\<close>

definition np_le :: "float \<Rightarrow> float \<Rightarrow> bool" where
  "np_le x y = (y = NaN \<or> fle x y)"

text \<open>
  The inputs the docstring of \<^verbatim>\<open>entrofy\<close> allows: \<open>k\<close> in \<open>(0, n]\<close>, a non-negative
  weight for every attribute, a target in \<open>[0, 1]\<close> for every attribute (the defaults
  counted in), and pre-selected rows that are rows of \<open>X\<close>.
\<close>

definition valid_input :: "matrix \<Rightarrow> int \<Rightarrow> real list option \<Rightarrow> real list option \<Rightarrow> bool" where
  "valid_input X k w q =
     (0 < k \<and> k \<le> int (n_participants X) \<and>
      length (default_w (n_attributes X) w) = n_attributes X \<and>
      list_all (\<lambda>x. 0 \<le> x) (default_w (n_attributes X) w) \<and>
      length (default_q (n_attributes X) q) = n_attributes X \<and>
      list_all (\<lambda>b. 0 \<le> b \<and> b \<le> 1) (default_q (n_attributes X) q))"

definition valid_rows :: "nat \<Rightarrow> int list \<Rightarrow> bool" where
  "valid_rows n ps = list_all (\<lambda>i. 0 \<le> i \<and> i < int n) ps"

text \<open>Inputs of the examples: a generator and three small panels.\<close>

definition rng0 :: rng where
  "rng0 t = 0"

definition panel1 :: matrix where
  "panel1 = \<lparr>n_participants = 1, n_attributes = 1, entry = (\<lambda>e j. True)\<rparr>"

definition panel2 :: matrix where
  "panel2 = \<lparr>n_participants = 2, n_attributes = 1, entry = (\<lambda>e j. e = 0)\<rparr>"

definition panel3 :: matrix where
  "panel3 = \<lparr>n_participants = 3, n_attributes = 2, entry = (\<lambda>e j. e = j)\<rparr>"

section \<open>The order of floats and \<^verbatim>\<open>np.argmax\<close>\<close>

lemma fle_trans: "fle x y \<Longrightarrow> fle y z \<Longrightarrow> fle x z"
  by (cases x; cases y; cases z) simp_all

lemma fle_total: "x \<noteq> NaN \<Longrightarrow> y \<noteq> NaN \<Longrightarrow> fle x y \<or> fle y x"
  by (cases x; cases y) auto

lemma fle_not_NaN: "fle x y \<Longrightarrow> x \<noteq> NaN \<and> y \<noteq> NaN"
  by (cases x; cases y) simp_all

lemma fle_refl: "x \<noteq> NaN \<Longrightarrow> fle x x"
  by (cases x) simp_all

lemma fle_NegInf_right: "fle x NegInf \<Longrightarrow> x = NegInf"
  by (cases x) simp_all

lemma argmax_scan_spec:
  assumes "mp \<noteq> NaN" "mi < length pre" "pre ! mi = mp" "NaN \<notin> set pre"
    and "\<forall>e<length pre. fle (pre ! e) mp" "\<forall>e<mi. \<not> fle mp (pre ! e)"
  shows "let d = pre @ xs; a = argmax_scan mp mi (length pre) xs
         in a < length d \<and>
            (if NaN \<in> set d then d ! a = NaN \<and> (\<forall>e<a. d ! e \<noteq> NaN)
             else (\<forall>e<length d. fle (d ! e) (d ! a)) \<and> (\<forall>e<a. \<not> fle (d ! a) (d ! e)))"
  using assms
proof (induction xs arbitrary: mp mi pre)
  case Nil
  then show ?case by simp
next
  case (Cons x xs)
  show ?case
  proof (cases "fle x mp")
    case True
    then have xn: "x \<noteq> NaN" using fle_not_NaN by blast
    have a: "mi < length (pre @ [x])" using Cons.prems by simp
    have b: "(pre @ [x]) ! mi = mp" using Cons.prems by (simp add: nth_append)
    have c: "NaN \<notin> set (pre @ [x])" using Cons.prems xn by simp
    have d: "\<forall>e<length (pre @ [x]). fle ((pre @ [x]) ! e) mp"
      using Cons.prems True by (auto simp: nth_append less_Suc_eq)
    have e: "\<forall>e<mi. \<not> fle mp ((pre @ [x]) ! e)"
      using Cons.prems by (auto simp: nth_append)
    from Cons.IH[OF Cons.prems(1) a b c d e] True show ?thesis by simp
  next
    case False
    show ?thesis
    proof (cases "x = NaN")
      case True
      have m: "NaN \<in> set (pre @ x # xs)" using True by simp
      have b: "\<forall>e<length pre. (pre @ x # xs) ! e \<noteq> NaN"
        using Cons.prems(4) by (metis nth_append nth_mem)
      have "argmax_scan mp mi (length pre) (x # xs) = length pre"
        using True by simp
      with m b True show ?thesis by (simp add: Let_def)
    next
      case xn: False
      have lt: "fle mp x" using fle_total[OF xn Cons.prems(1)] False by blast
      have a: "length pre < length (pre @ [x])" by simp
      have b: "(pre @ [x]) ! length pre = x" by simp
      have c: "NaN \<notin> set (pre @ [x])" using Cons.prems xn by simp
      have d: "\<forall>e<length (pre @ [x]). fle ((pre @ [x]) ! e) x"
        using Cons.prems lt xn by (auto simp: nth_append less_Suc_eq fle_refl intro: fle_trans)
      have e: "\<forall>e<length pre. \<not> fle x ((pre @ [x]) ! e)"
        using Cons.prems False by (auto simp: nth_append dest: fle_trans)
      from Cons.IH[OF xn a b c d e] False xn show ?thesis by simp
    qed
  qed
qed


lemma argmax_spec:
  assumes "d \<noteq> []"
  shows "\<exists>a. argmax d = Inr a \<and> a < length d \<and>
            (if NaN \<in> set d then d ! a = NaN \<and> (\<forall>e<a. d ! e \<noteq> NaN)
             else (\<forall>e<length d. fle (d ! e) (d ! a)) \<and> (\<forall>e<a. \<not> fle (d ! a) (d ! e)))"
proof -
  obtain x xs where d: "d = x # xs" using assms by (cases d) auto
  show ?thesis
  proof (cases "x = NaN")
    case True
    then show ?thesis by (simp add: d argmax_def)
  next
    case False
    define a where "a = argmax_scan x 0 (length [x]) xs"
    have "let d = [x] @ xs; a = argmax_scan x 0 (length [x]) xs
          in a < length d \<and>
            (if NaN \<in> set d then d ! a = NaN \<and> (\<forall>e<a. d ! e \<noteq> NaN)
             else (\<forall>e<length d. fle (d ! e) (d ! a)) \<and> (\<forall>e<a. \<not> fle (d ! a) (d ! e)))"
      by (rule argmax_scan_spec) (use False in \<open>simp_all add: fle_refl\<close>)
    then have "a < length d \<and>
            (if NaN \<in> set d then d ! a = NaN \<and> (\<forall>e<a. d ! e \<noteq> NaN)
             else (\<forall>e<length d. fle (d ! e) (d ! a)) \<and> (\<forall>e<a. \<not> fle (d ! a) (d ! e)))"
      unfolding Let_def a_def[symmetric] d append_Cons append_Nil by blast
    moreover have "argmax d = Inr a"
      using False by (simp add: d argmax_def a_def)
    ultimately show ?thesis by blast
  qed
qed

lemma argmax_not_NegInf:
  assumes "argmax d = Inr a" and "e < length d" and "d ! e \<noteq> NegInf"
  shows "d ! a \<noteq> NegInf"
proof -
  have ne: "d \<noteq> []" using assms(2) by auto
  from argmax_spec[OF ne] assms(1)
  have s: "if NaN \<in> set d then d ! a = NaN \<and> (\<forall>e<a. d ! e \<noteq> NaN)
             else (\<forall>e<length d. fle (d ! e) (d ! a)) \<and> (\<forall>e<a. \<not> fle (d ! a) (d ! e))"
    by auto
  show ?thesis
  proof (cases "NaN \<in> set d")
    case True
    with s show ?thesis by simp
  next
    case False
    with s assms(2) have "fle (d ! e) (d ! a)" by simp
    with assms(3) show ?thesis using fle_NegInf_right by metis
  qed
qed

lemma amin_pos: "0 < amin"
  by (simp add: amin_def)

lemma fadd_NaN_right: "fadd x NaN = NaN"
  by (cases x) simp_all

lemma H_entry_Fin:
  assumes "0 \<le> a" "a \<le> 1" "0 \<le> b" "b \<le> 1"
  shows "H_entry (Fin a) b =
     Fin (a * (ln (a + amin) - ln (b + amin)) + (1 - a) * (ln (1 - a + amin) - ln (1 - b + amin)))"
  using assms amin_pos by (simp add: H_entry_def fsub_def Let_def)

lemma H_entry_NaN: "H_entry NaN b = NaN"
  by (simp add: H_entry_def fsub_def Let_def)

lemma foldl_fadd_Fin:
  "length hs = length w \<Longrightarrow>
   foldl fadd (Fin c) (map (\<lambda>(a, b). fmul a (Fin b)) (zip (map Fin hs) w)) =
   Fin (c + sum_list (map (\<lambda>(a, b). a * b) (zip hs w)))"
proof (induction hs arbitrary: w c)
  case Nil
  then show ?case by simp
next
  case (Cons h hs)
  then obtain b bs where w: "w = b # bs" by (cases w) auto
  with Cons.prems have "length hs = length bs" by simp
  from Cons.IH[OF this, of "c + h * b"] show ?case by (simp add: w add.assoc)
qed

lemma foldl_fadd_NaN: "foldl fadd NaN xs = NaN"
  by (induction xs) simp_all

lemma dot_Fin:
  "length hs = length w \<Longrightarrow>
   dot (map Fin hs) w = Inr (Fin (sum_list (map (\<lambda>(a, b). a * b) (zip hs w))))"
  using foldl_fadd_Fin[of hs w 0] by (simp add: dot_def)

lemma dot_NaN:
  "length w = f \<Longrightarrow> dot (replicate f NaN) w = Inr (if f = 0 then Fin 0 else NaN)"
proof (cases w)
  case Nil
  assume "length w = f"
  with Nil show ?thesis by (simp add: dot_def)
next
  case (Cons b bs)
  assume "length w = f"
  with Cons obtain f' where f: "f = Suc f'" by auto
  show ?thesis using Cons \<open>length w = f\<close> by (simp add: dot_def f fadd_NaN_right foldl_fadd_NaN)
qed

section \<open>The objective on the values of a run\<close>

lemma prob_Fin [simp]: "prob (Fin a) = (0 \<le> a \<and> a \<le> 1)"
  by (simp add: prob_def)

lemma probE: "prob x \<Longrightarrow> \<exists>a. x = Fin a \<and> 0 \<le> a \<and> a \<le> 1"
  by (cases x) (simp_all add: prob_def)

lemma list_all_prob_map_Fin:
  "list_all prob p \<Longrightarrow> \<exists>ps. p = map Fin ps \<and> list_all (\<lambda>a. 0 \<le> a \<and> a \<le> 1) ps"
proof (induction p)
  case Nil
  then show ?case by simp
next
  case (Cons x p)
  then obtain ps where ps: "p = map Fin ps" "list_all (\<lambda>a. 0 \<le> a \<and> a \<le> 1) ps" by auto
  from Cons.prems obtain a where a: "x = Fin a" "0 \<le> a" "a \<le> 1" using probE by auto
  show ?case using a ps by (intro exI[of _ "a # ps"]) simp
qed

lemma H_entries_Fin:
  "length ps = length q \<Longrightarrow> list_all (\<lambda>a. 0 \<le> a \<and> a \<le> 1) ps \<Longrightarrow>
   list_all (\<lambda>b. 0 \<le> b \<and> b \<le> 1) q \<Longrightarrow>
   \<exists>hs. map (\<lambda>(a, b). H_entry a b) (zip (map Fin ps) q) = map Fin hs \<and> length hs = length q"
proof (induction ps arbitrary: q)
  case Nil
  then show ?case by simp
next
  case (Cons a ps)
  then obtain b bs where q: "q = b # bs" by (cases q) auto
  with Cons.prems have "length ps = length bs" "list_all (\<lambda>a. 0 \<le> a \<and> a \<le> 1) ps"
    "list_all (\<lambda>b. 0 \<le> b \<and> b \<le> 1) bs" by simp_all
  from Cons.IH[OF this] obtain hs where
    hs: "map (\<lambda>(a, b). H_entry a b) (zip (map Fin ps) bs) = map Fin hs" "length hs = length bs"
    by blast
  from Cons.prems q obtain h where h: "H_entry (Fin a) b = Fin h"
    using H_entry_Fin[of a b] by auto
  show ?case using hs h q by (intro exI[of _ "h # hs"]) simp
qed

lemma obj_prob:
  assumes "length p = length w" "length q = length w" "list_all prob p"
    and "list_all (\<lambda>b. 0 \<le> b \<and> b \<le> 1) q"
  shows "\<exists>s. obj p w q = Inr (Fin s)"
proof -
  from assms(3) obtain ps where ps: "p = map Fin ps" "list_all (\<lambda>a. 0 \<le> a \<and> a \<le> 1) ps"
    using list_all_prob_map_Fin by blast
  have len: "length ps = length q" using assms(1,2) ps by simp
  from H_entries_Fin[OF len ps(2) assms(4)] obtain hs where
    hs: "map (\<lambda>(a, b). H_entry a b) (zip (map Fin ps) q) = map Fin hs" "length hs = length q"
    by blast
  have b: "broadcast p q = Inr (zip p q)" using len ps by (simp add: broadcast_def)
  have "length hs = length w" using hs assms(2) by simp
  from dot_Fin[OF this] show ?thesis using b hs ps by (simp add: obj_def)
qed

lemma obj_NaN:
  assumes "length w = f" "length q = f"
  shows "obj (replicate f NaN) w q = Inr (if f = 0 then Fin 0 else NaN)"
proof -
  have b: "broadcast (replicate f NaN) q = Inr (zip (replicate f NaN) q)"
    using assms by (simp add: broadcast_def)
  have "map (\<lambda>(a, b). H_entry a b) (zip (replicate f NaN) q) = replicate f NaN"
    using assms(2) by (intro nth_equalityI) (simp_all add: H_entry_NaN)
  with dot_NaN[OF assms(1)] b show ?thesis by (simp add: obj_def)
qed


lemma set_flatnonzero: "set (flatnonzero y) = {e. e < length y \<and> y ! e}"
  by (auto simp: flatnonzero_def)

lemma distinct_flatnonzero: "distinct (flatnonzero y)"
  by (simp add: flatnonzero_def)

lemma sorted_flatnonzero: "sorted (flatnonzero y)"
  by (simp add: flatnonzero_def sorted_wrt_filter)

lemma mask_sum_card: "mask_sum y = card {e. e < length y \<and> y ! e}"
  by (simp add: mask_sum_def length_filter_conv_card)

lemma length_flatnonzero: "length (flatnonzero y) = mask_sum y"
  using distinct_card[OF distinct_flatnonzero, of y]
  by (simp add: set_flatnonzero mask_sum_card)

lemma mask_sum_le_length: "mask_sum y \<le> length y"
  by (simp add: mask_sum_def)

lemma mask_sum_replicate_False: "mask_sum (replicate n False) = 0"
  by (simp add: mask_sum_def)

lemma mask_sum_update:
  assumes "a < length y" "\<not> y ! a"
  shows "mask_sum (y[a := True]) = Suc (mask_sum y)"
proof -
  have "{e. e < length (y[a := True]) \<and> y[a := True] ! e} = insert a {e. e < length y \<and> y ! e}"
    using assms(1) by (auto simp: nth_list_update)
  moreover have "a \<notin> {e. e < length y \<and> y ! e}" using assms(2) by simp
  moreover have "finite {e. e < length y \<and> y ! e}" by simp
  ultimately show ?thesis by (simp add: mask_sum_card)
qed

lemma mask_sum_less_unselected:
  assumes "mask_sum y < length y"
  shows "\<exists>e<length y. \<not> y ! e"
proof (rule ccontr)
  assume "\<not> (\<exists>e<length y. \<not> y ! e)"
  then have "{e. e < length y \<and> y ! e} = {..<length y}" by auto
  then have "mask_sum y = length y" by (simp add: mask_sum_card)
  with assms show False by simp
qed

lemma length_row: "length (row X e) = n_attributes X"
  by (simp add: row_def)

lemma length_nanmean: "length (nanmean X y) = n_attributes X"
  by (simp add: nanmean_def Let_def)

lemma sum_of_bool_bounds:
  "(0::real) \<le> sum_list (map (\<lambda>r. of_bool (P r)) rows) \<and>
   sum_list (map (\<lambda>r. of_bool (P r)) rows) \<le> real (length rows)"
  by (induction rows) auto

lemma nanmean_empty:
  assumes "mask_sum y = 0"
  shows "nanmean X y = replicate (n_attributes X) NaN"
proof -
  have "flatnonzero y = []" using assms length_flatnonzero[of y] by simp
  then show ?thesis by (simp add: nanmean_def Let_def map_replicate_const)
qed

lemma nanmean_prob:
  assumes "0 < mask_sum y"
  shows "list_all prob (nanmean X y)"
proof -
  define rows where "rows = map (row X) (flatnonzero y)"
  have ne: "rows \<noteq> []" using assms length_flatnonzero[of y] by (auto simp: rows_def)
  then have pos: "0 < real (length rows)" by simp
  have "prob (Fin (sum_list (map (\<lambda>r. of_bool (r ! j)) rows) / real (length rows)))" for j
    using sum_of_bool_bounds[of "\<lambda>r. r ! j" rows] pos
    by (simp add: divide_le_eq zero_le_divide_iff)
  then show ?thesis using ne
    by (simp add: nanmean_def Let_def rows_def[symmetric] list_all_iff)
qed

lemma length_p_new_row:
  "length p = n_attributes X \<Longrightarrow> length (p_new_row X p i e) = n_attributes X"
  by (simp add: p_new_row_def length_row)

lemma p_new_row_NaN:
  "p_new_row X (replicate (n_attributes X) NaN) i e = replicate (n_attributes X) NaN"
  by (intro nth_equalityI) (simp_all add: p_new_row_def length_row)

lemma p_new_entry_prob:
  assumes "prob pj"
  shows "prob (fdiv (fadd (fmul pj (Fin (real i))) (Fin (of_bool x))) (Fin (real i + 1)))"
proof -
  from assms obtain a where a: "pj = Fin a" "0 \<le> a" "a \<le> 1" using probE by blast
  have "a * real i \<le> real i" using a by (simp add: mult_left_le_one_le)
  moreover have "0 \<le> a * real i" using a by simp
  moreover have "(0::real) \<le> of_bool x \<and> (of_bool x :: real) \<le> 1" by simp
  ultimately have "0 \<le> (a * real i + of_bool x) / (real i + 1) \<and>
      (a * real i + of_bool x) / (real i + 1) \<le> 1"
    by (simp add: divide_le_eq add_nonneg_nonneg add_mono)
  moreover have "real i + 1 \<noteq> 0" by (simp add: add_nonneg_eq_0_iff)
  ultimately show ?thesis using a by simp
qed

lemma p_new_row_prob:
  assumes "list_all prob p"
  shows "list_all prob (p_new_row X p i e)"
  using assms
  by (auto simp: p_new_row_def list_all_iff intro!: p_new_entry_prob dest: set_zip_leftD)

lemma collect_all_Inr:
  assumes "\<forall>x\<in>set xs. \<exists>v. f x = Inr v"
  shows "\<exists>vs. collect (map f xs) = Inr vs \<and> length vs = length xs \<and>
               (\<forall>i<length xs. f (xs ! i) = Inr (vs ! i))"
  using assms
proof (induction xs)
  case Nil
  then show ?case by simp
next
  case (Cons x xs)
  then obtain vs where vs: "collect (map f xs) = Inr vs" "length vs = length xs"
    "\<forall>i<length xs. f (xs ! i) = Inr (vs ! i)" by auto
  from Cons.prems obtain v where v: "f x = Inr v" by auto
  show ?case using v vs
    by (intro exI[of _ "v # vs"]) (auto simp: nth_Cons split: nat.split)
qed


lemma nth_knock_out:
  "length y = length d \<Longrightarrow> e < length d \<Longrightarrow>
   knock_out y d ! e = (if y ! e then NegInf else d ! e)"
  by (simp add: knock_out_def)

lemma length_knock_out: "length y = length d \<Longrightarrow> length (knock_out y d) = length d"
  by (simp add: knock_out_def)

lemma obj_of_mean:
  assumes "length w = n_attributes X" "length q = n_attributes X"
    and "list_all (\<lambda>b. 0 \<le> b \<and> b \<le> 1) q"
  shows "\<exists>v. obj (nanmean X y) w q = Inr v \<and>
           (0 < mask_sum y \<longrightarrow> (\<exists>r. v = Fin r)) \<and>
           (mask_sum y = 0 \<longrightarrow> v = (if n_attributes X = 0 then Fin 0 else NaN))"
proof (cases "0 < mask_sum y")
  case True
  have "length (nanmean X y) = length w" using assms(1) by (simp add: length_nanmean)
  from obj_prob[OF this _ nanmean_prob[OF True] assms(3)] assms(1,2) True
  show ?thesis by auto
next
  case False
  then have "nanmean X y = replicate (n_attributes X) NaN" using nanmean_empty by simp
  with False obj_NaN[OF assms(1,2)] show ?thesis by simp
qed

lemma obj_of_new:
  assumes "length w = n_attributes X" "length q = n_attributes X"
    and "list_all (\<lambda>b. 0 \<le> b \<and> b \<le> 1) q"
  shows "\<exists>v. obj (p_new_row X (nanmean X y) (mask_sum y) e) w q = Inr v \<and>
           (0 < mask_sum y \<longrightarrow> (\<exists>r. v = Fin r)) \<and>
           (mask_sum y = 0 \<longrightarrow> v = (if n_attributes X = 0 then Fin 0 else NaN))"
proof (cases "0 < mask_sum y")
  case True
  have "length (p_new_row X (nanmean X y) (mask_sum y) e) = length w"
    using assms(1) by (simp add: length_p_new_row length_nanmean)
  from obj_prob[OF this _ p_new_row_prob[OF nanmean_prob[OF True]] assms(3)] assms(1,2) True
  show ?thesis by auto
next
  case False
  then have "p_new_row X (nanmean X y) (mask_sum y) e = replicate (n_attributes X) NaN"
    using nanmean_empty[of y X] p_new_row_NaN by simp
  with False obj_NaN[OF assms(1,2)] show ?thesis by simp
qed

lemma mask_sum_zero_unselected:
  assumes "mask_sum y = 0" "e < length y"
  shows "\<not> y ! e"
proof
  assume "y ! e"
  then have "e \<in> {e. e < length y \<and> y ! e}" using assms(2) by simp
  moreover have "card {e. e < length y \<and> y ! e} = 0"
    using assms(1) by (simp only: mask_sum_card)
  then have "{e. e < length y \<and> y ! e} = {}" by simp
  ultimately show False by blast
qed


lemma marginal_gains_spec:
  assumes "length y = n_participants X" "length w = n_attributes X" "length q = n_attributes X"
    and "list_all (\<lambda>b. 0 \<le> b \<and> b \<le> 1) q"
  shows "\<exists>delta new old.
           marginal_gains X w q y = Inr delta \<and> length delta = n_participants X \<and>
           length new = n_participants X \<and>
           (\<forall>e<n_participants X.
              obj (p_new_row X (nanmean X y) (mask_sum y) e) w q = Inr (new ! e)) \<and>
           obj (nanmean X y) w q = Inr old \<and>
           (\<forall>e<n_participants X. delta ! e = (if y ! e then NegInf else fsub (new ! e) old)) \<and>
           (\<forall>e<n_participants X. \<not> y ! e \<longrightarrow> delta ! e \<noteq> NegInf) \<and>
           (0 < mask_sum y \<longrightarrow> (\<forall>e<n_participants X. \<not> y ! e \<longrightarrow> (\<exists>r. delta ! e = Fin r))) \<and>
           (mask_sum y = 0 \<longrightarrow> (\<forall>e<n_participants X. delta ! e = fsub old old))"
proof -
  let ?n = "n_participants X"
  let ?p = "nanmean X y"
  let ?i = "mask_sum y"
  let ?z = "if n_attributes X = 0 then Fin 0 else NaN"
  from obj_of_mean[OF assms(2,3,4), of y] obtain old where
    old: "obj ?p w q = Inr old" "0 < ?i \<longrightarrow> (\<exists>r. old = Fin r)" "?i = 0 \<longrightarrow> old = ?z"
    by (elim exE conjE)
  have "\<forall>e\<in>set [0..<?n]. \<exists>v. obj (p_new_row X ?p ?i e) w q = Inr v"
    using obj_of_new[OF assms(2,3,4), of y] by blast
  from collect_all_Inr[OF this] obtain new where
    new: "collect (map (\<lambda>e. obj (p_new_row X ?p ?i e) w q) [0..<?n]) = Inr new"
      "length new = ?n" "\<forall>e<?n. obj (p_new_row X ?p ?i e) w q = Inr (new ! e)"
    by auto
  define delta where "delta = knock_out y (map (\<lambda>v. fsub v old) new)"
  have mg: "marginal_gains X w q y = Inr delta"
    using new(1) old(1) by (simp add: marginal_gains_def Let_def delta_def)
  have ld: "length delta = ?n" using new(2) assms(1) by (simp add: delta_def length_knock_out)
  have nth: "\<forall>e<?n. delta ! e = (if y ! e then NegInf else fsub (new ! e) old)"
    using new(2) assms(1) by (simp add: delta_def nth_knock_out)
  have fin: "\<exists>r. fsub (new ! e) old = Fin r" if i: "0 < ?i" and e: "e < ?n" for e
  proof -
    from obj_of_new[OF assms(2,3,4), of y e] new(3) e i obtain a where "new ! e = Fin a" by auto
    moreover from old(2) i obtain b where "old = Fin b" by auto
    ultimately show ?thesis by (simp add: fsub_def)
  qed
  have nan: "new ! e = old \<and> \<not> y ! e \<and> fsub old old \<noteq> NegInf" if i: "?i = 0" and e: "e < ?n" for e
  proof -
    from obj_of_new[OF assms(2,3,4), of y e] new(3) e i have "new ! e = ?z" by auto
    moreover have "\<not> y ! e" using mask_sum_zero_unselected[OF i] e assms(1) by simp
    moreover have "fsub ?z ?z \<noteq> NegInf" by (simp add: fsub_def)
    ultimately show ?thesis using old(3) i by simp
  qed
  have c1: "\<forall>e<?n. \<not> y ! e \<longrightarrow> delta ! e \<noteq> NegInf"
  proof (intro allI impI)
    fix e assume e: "e < ?n" and ne: "\<not> y ! e"
    show "delta ! e \<noteq> NegInf"
    proof (cases "0 < ?i")
      case True
      from fin[OF True e] nth e ne show ?thesis by auto
    next
      case False
      then have "?i = 0" by simp
      from nan[OF this e] nth e ne show ?thesis by auto
    qed
  qed
  have c2: "0 < ?i \<longrightarrow> (\<forall>e<?n. \<not> y ! e \<longrightarrow> (\<exists>r. delta ! e = Fin r))"
  proof (intro allI impI)
    fix e assume "0 < ?i" "e < ?n" "\<not> y ! e"
    with fin[of e] nth show "\<exists>r. delta ! e = Fin r" by auto
  qed
  have c3: "?i = 0 \<longrightarrow> (\<forall>e<?n. delta ! e = fsub old old)"
  proof (intro allI impI)
    fix e assume "?i = 0" "e < ?n"
    with nan[of e] nth show "delta ! e = fsub old old" by auto
  qed
  show ?thesis
    apply (rule exI[of _ delta], rule exI[of _ new], rule exI[of _ old])
    using mg ld new(2,3) old(1) nth c1 c2 c3 by (intro conjI) assumption+
qed

section \<open>The greedy loop\<close>

lemma greedy_step_spec:
  assumes "length y = n_participants X" "length w = n_attributes X" "length q = n_attributes X"
    and "list_all (\<lambda>b. 0 \<le> b \<and> b \<le> 1) q" and "mask_sum y < n_participants X"
  shows "\<exists>delta a. marginal_gains X w q y = Inr delta \<and> argmax delta = Inr a \<and>
           greedy_step X w q y = Inr (y[a := True]) \<and> a < n_participants X \<and> \<not> y ! a"
proof -
  from marginal_gains_spec[OF assms(1-4)] obtain delta new old where
    d: "marginal_gains X w q y = Inr delta" "length delta = n_participants X"
       "\<forall>e<n_participants X. delta ! e = (if y ! e then NegInf else fsub (new ! e) old)"
       "\<forall>e<n_participants X. \<not> y ! e \<longrightarrow> delta ! e \<noteq> NegInf"
    by blast
  have "delta \<noteq> []" using d(2) assms(5) by auto
  from argmax_spec[OF this] obtain a where a: "argmax delta = Inr a" "a < length delta" by blast
  from mask_sum_less_unselected[of y] assms(1,5) obtain e where e: "e < length y" "\<not> y ! e"
    by auto
  then have "delta ! e \<noteq> NegInf" using d(4) assms(1) by simp
  from argmax_not_NegInf[OF a(1) _ this] e(1) assms(1) d(2) have "delta ! a \<noteq> NegInf" by simp
  then have "\<not> y ! a" using d(3) a(2) d(2) by auto
  moreover have "greedy_step X w q y = Inr (y[a := True])"
    using d(1) a(1) by (simp add: greedy_step_def)
  ultimately show ?thesis using d(1,2) a by auto
qed

lemma greedy_loop_run:
  assumes "length w = n_attributes X" "length q = n_attributes X"
    and "list_all (\<lambda>b. 0 \<le> b \<and> b \<le> 1) q" and "k \<le> int (n_participants X)"
    and "visits X k w q y0 y" and "length y = n_participants X"
  shows "\<exists>y'. greedy_loop X k w q y = Some (Inr y') \<and> visits X k w q y0 y' \<and>
           length y' = n_participants X \<and> (\<forall>e<n_participants X. y ! e \<longrightarrow> y' ! e) \<and>
           k \<le> int (mask_sum y') \<and>
           (if k \<le> int (mask_sum y) then y' = y else int (mask_sum y') = k)"
  using assms(5,6)
proof (induction m \<equiv> "nat (k - int (mask_sum y))" arbitrary: y)
  case 0
  then have "k \<le> int (mask_sum y)" by simp
  then show ?case using "0.prems" by (subst greedy_loop.simps) simp
next
  case (Suc m)
  then have lt: "int (mask_sum y) < k" by linarith
  then have "mask_sum y < n_participants X" using assms(4) by linarith
  from greedy_step_spec[OF Suc.prems(2) assms(1-3) this] obtain a where
    a: "greedy_step X w q y = Inr (y[a := True])" "a < n_participants X" "\<not> y ! a" by blast
  let ?y = "y[a := True]"
  have ms: "mask_sum ?y = Suc (mask_sum y)"
    using mask_sum_update[of a y] a Suc.prems(2) by simp
  have m: "m = nat (k - int (mask_sum ?y))" using Suc(2) ms by linarith
  have v: "visits X k w q y0 ?y"
    using visits.iteration[OF Suc.prems(1) _ a(1)] lt by simp
  have l: "length ?y = n_participants X" using Suc.prems(2) by simp
  from Suc(1)[OF m v l] obtain y' where
    y': "greedy_loop X k w q ?y = Some (Inr y')" "visits X k w q y0 y'"
      "length y' = n_participants X" "\<forall>e<n_participants X. ?y ! e \<longrightarrow> y' ! e"
      "k \<le> int (mask_sum y')"
      "if k \<le> int (mask_sum ?y) then y' = ?y else int (mask_sum y') = k"
    by blast
  have loop: "greedy_loop X k w q y = Some (Inr y')"
    using lt a(1) y'(1) by (subst greedy_loop.simps) simp
  have mono: "\<forall>e<n_participants X. y ! e \<longrightarrow> y' ! e"
  proof (intro allI impI)
    fix e assume e: "e < n_participants X" "y ! e"
    then have "?y ! e" using Suc.prems(2) a(2) by (simp add: nth_list_update)
    with y'(4) e(1) show "y' ! e" by blast
  qed
  have "int (mask_sum y') = k"
  proof (cases "k \<le> int (mask_sum ?y)")
    case True
    with y'(6) ms lt show ?thesis by simp
  next
    case False
    with y'(6) show ?thesis by simp
  qed
  with loop y'(2,3,5) mono lt show ?case by auto
qed

section \<open>A valid run of \<^verbatim>\<open>_entrofy\<close>\<close>

lemma np_index_valid: "0 \<le> i \<Longrightarrow> i < int n \<Longrightarrow> np_index n i = Inr (nat i)"
  by (simp add: np_index_def)

lemma assign_true_valid:
  assumes "valid_rows (length y) ps"
  shows "\<exists>y'. assign_true y ps = Inr y' \<and> length y' = length y \<and>
           (\<forall>e<length y. y' ! e = (y ! e \<or> int e \<in> set ps))"
  using assms
proof (induction ps arbitrary: y)
  case Nil
  then show ?case by simp
next
  case (Cons i ps)
  then have i: "0 \<le> i" "i < int (length y)" and ps: "valid_rows (length y) ps"
    by (simp_all add: valid_rows_def)
  let ?y = "y[nat i := True]"
  have "valid_rows (length ?y) ps" using ps by simp
  from Cons.IH[OF this] obtain y' where
    y': "assign_true ?y ps = Inr y'" "length y' = length y"
      "\<forall>e<length y. y' ! e = (?y ! e \<or> int e \<in> set ps)" by auto
  have "assign_true y (i # ps) = Inr y'" using y'(1) np_index_valid[OF i] by simp
  moreover have "\<forall>e<length y. y' ! e = (y ! e \<or> int e \<in> set (i # ps))"
  proof (intro allI impI)
    fix e assume e: "e < length y"
    have "?y ! e = (y ! e \<or> int e = i)" using i e by (auto simp: nth_list_update)
    with y'(3) e show "y' ! e = (y ! e \<or> int e \<in> set (i # ps))" by auto
  qed
  ultimately show ?case using y'(2) by blast
qed

lemma seeded_mask:
  assumes "valid_rows n ps"
  shows "\<exists>y0. assign_true (replicate n False) ps = Inr y0 \<and> length y0 = n \<and>
           (\<forall>e<n. y0 ! e = (int e \<in> set ps)) \<and> mask_sum y0 = card (set ps) \<and>
           set (flatnonzero y0) = nat ` set ps"
proof -
  have "valid_rows (length (replicate n False)) ps" using assms by simp
  from assign_true_valid[OF this] obtain y0 where
    y0: "assign_true (replicate n False) ps = Inr y0" "length y0 = n"
      "\<forall>e<n. y0 ! e = (int e \<in> set ps)" by auto
  have r: "\<forall>i\<in>set ps. 0 \<le> i \<and> i < int n" using assms by (simp add: valid_rows_def list_all_iff)
  have s: "{e. e < length y0 \<and> y0 ! e} = nat ` set ps"
  proof (intro equalityI subsetI)
    fix e assume "e \<in> {e. e < length y0 \<and> y0 ! e}"
    then have "int e \<in> set ps" using y0 by auto
    then have "nat (int e) \<in> nat ` set ps" by (rule imageI)
    then show "e \<in> nat ` set ps" by simp
  next
    fix e assume "e \<in> nat ` set ps"
    then obtain i where i: "i \<in> set ps" "e = nat i" by auto
    with r have "0 \<le> i" "i < int n" by auto
    with i y0 show "e \<in> {e. e < length y0 \<and> y0 ! e}" by auto
  qed
  have "inj_on nat (set ps)"
  proof (rule inj_onI)
    fix a b assume "a \<in> set ps" "b \<in> set ps" "nat a = nat b"
    with r have "0 \<le> a" "0 \<le> b" "nat a = nat b" by auto
    then show "a = b" by linarith
  qed
  then have "card (nat ` set ps) = card (set ps)" by (rule card_image)
  with s have "mask_sum y0 = card (set ps)" by (simp add: mask_sum_card)
  with y0 s show ?thesis by (auto simp: set_flatnonzero)
qed

lemma seed_rows_valid:
  assumes "0 < n" "case pre_selects of None \<Rightarrow> True | Some ps \<Rightarrow> valid_rows n ps"
  shows "\<exists>ps g'. seed_rows n pre_selects g = (ps, g') \<and> valid_rows n ps \<and>
           (case pre_selects of None \<Rightarrow> card (set ps) = 1 \<and> g' = (\<lambda>t. g (Suc t))
                              | Some ps' \<Rightarrow> ps = ps' \<and> g' = g)"
  using assms by (cases pre_selects) (simp_all add: seed_rows_def random_choice_def valid_rows_def)


lemma not_list_ex_neg: "(\<not> list_ex (\<lambda>x. x < 0) w) = list_all (\<lambda>x. (0::real) \<le> x) w"
  by (auto simp: list_ex_iff list_all_iff not_less)

lemma list_all_range:
  "(list_all (\<lambda>x. x \<ge> 0) q \<and> list_all (\<lambda>x. x \<le> 1) q) = list_all (\<lambda>b. (0::real) \<le> b \<and> b \<le> 1) q"
  by (auto simp: list_all_iff)

lemma u_entrofy_valid:
  assumes "valid_input X k w q"
  shows "u_entrofy X k w q pre g =
     (if k = int (n_participants X) then Some (Inr (RetArray [0..<n_participants X]), g)
      else
        (let (ps, g') = seed_rows (n_participants X) pre g
         in case assign_true (replicate (n_participants X) False) ps of
              Inl e \<Rightarrow> Some (Inl e, g')
            | Inr y \<Rightarrow>
                (case greedy_loop X k (default_w (n_attributes X) w) (default_q (n_attributes X) q) y of
                   None \<Rightarrow> None
                 | Some (Inl e) \<Rightarrow> Some (Inl e, g')
                 | Some (Inr y') \<Rightarrow>
                     (case obj (nanmean X y') (default_w (n_attributes X) w) (default_q (n_attributes X) q) of
                        Inl e \<Rightarrow> Some (Inl e, g')
                      | Inr score \<Rightarrow> Some (Inr (RetTuple score (flatnonzero y')), g')))))"
proof -
  have a: "0 < k \<and> k \<le> int (n_participants X)" using assms by (simp add: valid_input_def)
  have b: "\<not> list_ex (\<lambda>x. x < 0) (default_w (n_attributes X) w)"
    using assms by (simp add: valid_input_def not_list_ex_neg)
  have c: "list_all (\<lambda>x. x \<ge> 0) (default_q (n_attributes X) q) \<and>
           list_all (\<lambda>x. x \<le> 1) (default_q (n_attributes X) q)"
    using assms by (simp add: valid_input_def list_all_range)
  have d: "length (default_w (n_attributes X) w) = n_attributes X"
    using assms by (simp add: valid_input_def)
  have e: "length (default_q (n_attributes X) q) = n_attributes X"
    using assms by (simp add: valid_input_def)
  show ?thesis
    unfolding u_entrofy_def Let_def using a b c d e by simp
qed

lemma u_entrofy_run:
  assumes "valid_input X k w q" "k < int (n_participants X)"
    and "seed_rows (n_participants X) pre g = (ps, g')" "valid_rows (n_participants X) ps"
  shows "\<exists>y0 y' s.
           assign_true (replicate (n_participants X) False) ps = Inr y0 \<and>
           length y0 = n_participants X \<and>
           (\<forall>e<n_participants X. y0 ! e = (int e \<in> set ps)) \<and>
           mask_sum y0 = card (set ps) \<and>
           greedy_loop X k (default_w (n_attributes X) w) (default_q (n_attributes X) q) y0 = Some (Inr y') \<and>
           visits X k (default_w (n_attributes X) w) (default_q (n_attributes X) q) y0 y' \<and>
           length y' = n_participants X \<and>
           (\<forall>e<n_participants X. y0 ! e \<longrightarrow> y' ! e) \<and>
           k \<le> int (mask_sum y') \<and>
           (if k \<le> int (mask_sum y0) then y' = y0 else int (mask_sum y') = k) \<and>
           u_entrofy X k w q pre g = Some (Inr (RetTuple (Fin s) (flatnonzero y')), g')"
proof -
  let ?n = "n_participants X"
  let ?w = "default_w (n_attributes X) w"
  let ?q = "default_q (n_attributes X) q"
  have v: "0 < k" "length ?w = n_attributes X" "length ?q = n_attributes X"
    "list_all (\<lambda>b. 0 \<le> b \<and> b \<le> 1) ?q"
    using assms(1) by (simp_all add: valid_input_def)
  from seeded_mask[OF assms(4)] obtain y0 where
    y0: "assign_true (replicate ?n False) ps = Inr y0" "length y0 = ?n"
      "\<forall>e<?n. y0 ! e = (int e \<in> set ps)" "mask_sum y0 = card (set ps)" by blast
  have kn: "k \<le> int ?n" using assms(2) by simp
  from greedy_loop_run[OF v(2,3,4) kn visits.start y0(2)] obtain y' where
    y': "greedy_loop X k ?w ?q y0 = Some (Inr y')" "visits X k ?w ?q y0 y'" "length y' = ?n"
      "\<forall>e<?n. y0 ! e \<longrightarrow> y' ! e" "k \<le> int (mask_sum y')"
      "if k \<le> int (mask_sum y0) then y' = y0 else int (mask_sum y') = k" by blast
  have "0 < mask_sum y'" using y'(5) v(1) by linarith
  with obj_of_mean[OF v(2,3,4), of y'] obtain s where s: "obj (nanmean X y') ?w ?q = Inr (Fin s)"
    by auto
  have "u_entrofy X k w q pre g = Some (Inr (RetTuple (Fin s) (flatnonzero y')), g')"
    using assms(2,3) y0(1) y'(1) s by (simp add: u_entrofy_valid[OF assms(1)])
  with y0 y' show ?thesis by blast
qed

section \<open>The trials of \<^verbatim>\<open>entrofy\<close> and the best of them\<close>

lemma trials_all:
  assumes "\<And>g. \<exists>r g'. run g = Some (Inr r, g') \<and> P r"
  shows "\<exists>rs g'. trials run m g = Some (Inr rs, g') \<and> length rs = m \<and> list_all P rs"
proof (induction m arbitrary: g)
  case 0
  then show ?case by simp
next
  case (Suc m)
  from assms[of g] obtain r g1 where r: "run g = Some (Inr r, g1)" "P r" by blast
  from Suc[of g1] obtain rs g2 where
    rs: "trials run m g1 = Some (Inr rs, g2)" "length rs = m" "list_all P rs" by blast
  show ?case using r rs by (intro exI[of _ "r # rs"] exI[of _ g2]) simp
qed

lemma best_of_first_max:
  "\<exists>earlier s idx later.
     (s0, i0) # ps = earlier @ (s, idx) # later \<and>
     (\<forall>x\<in>set earlier. fst x < s) \<and> (\<forall>x\<in>set later. fst x \<le> s) \<and>
     best_of (NumFloat (Fin s0), SolArray i0) (map (\<lambda>(s, idx). RetTuple (Fin s) idx) ps) =
       Inr (NumFloat (Fin s), SolArray idx)"
proof (induction ps arbitrary: s0 i0)
  case Nil
  show ?case
    apply (rule_tac x = "[]" in exI)
    apply (rule_tac x = s0 in exI)
    apply (rule_tac x = i0 in exI)
    apply simp
    done
next
  case (Cons p ps)
  obtain s1 i1 where p: "p = (s1, i1)" by (cases p)
  show ?case
  proof (cases "s1 > s0")
    case True
    from Cons[of s1 i1] obtain earlier s idx later where
      IH: "(s1, i1) # ps = earlier @ (s, idx) # later" "\<forall>x\<in>set earlier. fst x < s"
        "\<forall>x\<in>set later. fst x \<le> s"
        "best_of (NumFloat (Fin s1), SolArray i1) (map (\<lambda>(s, idx). RetTuple (Fin s) idx) ps) =
           Inr (NumFloat (Fin s), SolArray idx)" by blast
    have "(s1, i1) \<in> set (earlier @ (s, idx) # later)" using IH(1) by (metis list.set_intros(1))
    then have "s1 \<le> s" using IH(2,3) by auto
    with True have "s0 < s" by simp
    moreover have "(s0, i0) # p # ps = ((s0, i0) # earlier) @ (s, idx) # later"
      using IH(1) p by simp
    moreover have "best_of (NumFloat (Fin s0), SolArray i0)
        (map (\<lambda>(s, idx). RetTuple (Fin s) idx) (p # ps)) = Inr (NumFloat (Fin s), SolArray idx)"
      using IH(4) True p by (simp add: num_gt_def)
    ultimately show ?thesis using IH(2,3)
      apply (rule_tac x = "(s0, i0) # earlier" in exI)
      apply (rule_tac x = s in exI)
      apply (rule_tac x = idx in exI)
      apply (rule_tac x = later in exI)
      apply simp
      done
  next
    case False
    from Cons[of s0 i0] obtain earlier s idx later where
      IH: "(s0, i0) # ps = earlier @ (s, idx) # later" "\<forall>x\<in>set earlier. fst x < s"
        "\<forall>x\<in>set later. fst x \<le> s"
        "best_of (NumFloat (Fin s0), SolArray i0) (map (\<lambda>(s, idx). RetTuple (Fin s) idx) ps) =
           Inr (NumFloat (Fin s), SolArray idx)" by blast
    have b: "best_of (NumFloat (Fin s0), SolArray i0) (map (\<lambda>(s, idx). RetTuple (Fin s) idx) (p # ps)) =
           Inr (NumFloat (Fin s), SolArray idx)"
      using IH(4) False p by (simp add: num_gt_def)
    show ?thesis
    proof (cases earlier)
      case Nil
      with IH(1) have e: "s = s0" "idx = i0" "later = ps" by simp_all
      have "s1 \<le> s0" using False by simp
      then show ?thesis using b e p IH(3)
        apply (rule_tac x = "[]" in exI)
        apply (rule_tac x = s0 in exI)
        apply (rule_tac x = i0 in exI)
        apply (rule_tac x = "p # ps" in exI)
        apply simp
        done
    next
      case (Cons a rest)
      with IH(1) have e: "a = (s0, i0)" "ps = rest @ (s, idx) # later" by simp_all
      with IH(2) Cons have "s0 < s" by simp
      with False have "s1 < s" by simp
      moreover have "(s0, i0) # p # ps = ((s0, i0) # p # rest) @ (s, idx) # later"
        using e(2) by simp
      moreover have "\<forall>x\<in>set rest. fst x < s" using IH(2) Cons by simp
      ultimately show ?thesis using b p IH(3) \<open>s0 < s\<close>
        apply (rule_tac x = "(s0, i0) # p # rest" in exI)
        apply (rule_tac x = s in exI)
        apply (rule_tac x = idx in exI)
        apply (rule_tac x = later in exI)
        apply simp
        done
    qed
  qed
qed


lemma tuples_as_pairs:
  assumes "list_all (\<lambda>r. \<exists>s idx. r = RetTuple (Fin s) idx \<and> Q idx) rs"
  shows "\<exists>ps. rs = map (\<lambda>(s, idx). RetTuple (Fin s) idx) ps \<and> (\<forall>x\<in>set ps. Q (snd x))"
  using assms
proof (induction rs)
  case Nil
  then show ?case by simp
next
  case (Cons r rs)
  then obtain ps where ps: "rs = map (\<lambda>(s, idx). RetTuple (Fin s) idx) ps" "\<forall>x\<in>set ps. Q (snd x)"
    by auto
  from Cons.prems obtain s idx where r: "r = RetTuple (Fin s) idx" "Q idx" by auto
  show ?case using ps r by (rule_tac x = "(s, idx) # ps" in exI) simp
qed

lemma entrofy_of_trials:
  assumes "\<And>g. \<exists>r g'. u_entrofy X k w q pre g = Some (Inr r, g') \<and>
                      (\<exists>s idx. r = RetTuple (Fin s) idx \<and> Q idx)"
    and "0 < nat (if pre \<noteq> None then 1 else n_samples)"
  shows "\<exists>earlier score best later g'.
           trials (u_entrofy X k w q pre) (nat (if pre \<noteq> None then 1 else n_samples)) g =
             Some (Inr (map (\<lambda>(s, idx). RetTuple (Fin s) idx) (earlier @ (score, best) # later)), g') \<and>
           (\<forall>x\<in>set earlier. fst x < score) \<and> (\<forall>x\<in>set later. fst x \<le> score) \<and>
           (\<forall>x\<in>set (earlier @ (score, best) # later). Q (snd x)) \<and>
           entrofy X k w q pre n_samples g = Some (Inr (NumFloat (Fin score), SolArray best), g')"
proof -
  let ?m = "nat (if pre \<noteq> None then 1 else n_samples)"
  let ?mk = "\<lambda>(s, idx). RetTuple (Fin s) idx"
  from trials_all[of "u_entrofy X k w q pre" "\<lambda>r. \<exists>s idx. r = RetTuple (Fin s) idx \<and> Q idx" ?m g, OF assms(1)]
  obtain rs g' where rs: "trials (u_entrofy X k w q pre) ?m g = Some (Inr rs, g')"
    "length rs = ?m" "list_all (\<lambda>r. \<exists>s idx. r = RetTuple (Fin s) idx \<and> Q idx) rs" by blast
  from tuples_as_pairs[OF rs(3)] obtain ps where
    ps: "rs = map ?mk ps" "\<forall>x\<in>set ps. Q (snd x)" by blast
  have "ps \<noteq> []" using rs(2) ps(1) assms(2) by auto
  then obtain s0 i0 ps' where p0: "ps = (s0, i0) # ps'" by (cases ps) auto
  from best_of_first_max[of s0 i0 ps'] obtain earlier s idx later where
    b: "(s0, i0) # ps' = earlier @ (s, idx) # later" "\<forall>x\<in>set earlier. fst x < s"
      "\<forall>x\<in>set later. fst x \<le> s"
      "best_of (NumFloat (Fin s0), SolArray i0) (map ?mk ps') = Inr (NumFloat (Fin s), SolArray idx)"
    by blast
  have t: "trials (u_entrofy X k w q pre) ?m g = Some (Inr (map ?mk (earlier @ (s, idx) # later)), g')"
    using rs(1) ps(1) p0 b(1) by simp
  have e: "entrofy X k w q pre n_samples g = Some (Inr (NumFloat (Fin s), SolArray idx), g')"
    using rs(1) ps(1) p0 b(4) by (simp add: entrofy_def Let_def)
  have q: "\<forall>x\<in>set (earlier @ (s, idx) # later). Q (snd x)"
    using ps(2) p0 b(1) by simp
  show ?thesis using t e q b(2,3)
    apply (rule_tac x = earlier in exI)
    apply (rule_tac x = s in exI)
    apply (rule_tac x = idx in exI)
    apply (rule_tac x = later in exI)
    apply (rule_tac x = g' in exI)
    apply (intro conjI)
    apply assumption+
    done
qed

lemma u_entrofy_trial:
  assumes "valid_input X k w q" "k < int (n_participants X)"
    and "case pre of None \<Rightarrow> True | Some ps \<Rightarrow> valid_rows (n_participants X) ps"
  shows "\<exists>s idx g'. u_entrofy X k w q pre g = Some (Inr (RetTuple (Fin s) idx), g') \<and>
           sorted idx \<and> distinct idx \<and> set idx \<subseteq> {0..<n_participants X} \<and>
           (case pre of
              None \<Rightarrow> length idx = nat k
            | Some ps \<Rightarrow> nat ` set ps \<subseteq> set idx \<and> length idx = max (nat k) (card (set ps)) \<and>
                (if nat k \<le> card (set ps) then set idx = nat ` set ps else True))"
proof -
  let ?n = "n_participants X"
  have n: "0 < ?n" using assms(1,2) by (simp add: valid_input_def)
  have k: "0 < k" using assms(1) by (simp add: valid_input_def)
  from seed_rows_valid[OF n assms(3), of g] obtain ps g' where
    sr: "seed_rows ?n pre g = (ps, g')" "valid_rows ?n ps"
      "case pre of None \<Rightarrow> card (set ps) = 1 \<and> g' = (\<lambda>t. g (Suc t)) | Some ps' \<Rightarrow> ps = ps' \<and> g' = g"
    by blast
  from u_entrofy_run[OF assms(1,2) sr(1,2)] obtain y0 y' s where
    r: "length y0 = ?n" "\<forall>e<?n. y0 ! e = (int e \<in> set ps)" "mask_sum y0 = card (set ps)"
      "length y' = ?n" "\<forall>e<?n. y0 ! e \<longrightarrow> y' ! e" "k \<le> int (mask_sum y')"
      "if k \<le> int (mask_sum y0) then y' = y0 else int (mask_sum y') = k"
      "u_entrofy X k w q pre g = Some (Inr (RetTuple (Fin s) (flatnonzero y')), g')"
      "assign_true (replicate ?n False) ps = Inr y0"
    by blast
  let ?idx = "flatnonzero y'"
  have sub: "set ?idx \<subseteq> {0..<?n}" using r(4) by (auto simp: set_flatnonzero)
  have len: "length ?idx = max (nat k) (card (set ps))"
    using r(3,6,7) k by (auto simp: length_flatnonzero split: if_splits)
  from seeded_mask[OF sr(2)] r(9) have s0: "set (flatnonzero y0) = nat ` set ps" by auto
  have "set (flatnonzero y0) \<subseteq> set ?idx" using r(1,4,5) by (auto simp: set_flatnonzero)
  with s0 have pre_in: "nat ` set ps \<subseteq> set ?idx" by simp
  have eq: "nat k \<le> card (set ps) \<Longrightarrow> set ?idx = nat ` set ps"
    using r(3,7) s0 k by (auto split: if_splits)
  show ?thesis
  proof (cases pre)
    case None
    with sr(3) len k have "length ?idx = nat k" by auto
    with None r(8) sub show ?thesis
      by (auto simp: sorted_flatnonzero distinct_flatnonzero)
  next
    case (Some ps')
    with sr(3) have "ps = ps'" by simp
    with Some r(8) sub len pre_in eq show ?thesis
      by (auto simp: sorted_flatnonzero distinct_flatnonzero)
  qed
qed

section \<open>The full panel, and the pre-selected rows\<close>

lemma trials_const:
  assumes "\<And>g. run g = Some (Inr r, g)"
  shows "trials run m g = Some (Inr (replicate m r), g)"
  by (induction m) (simp_all add: assms)

lemma best_of_same_pair:
  "best_of (NumInt a, SolInt b) (replicate j (RetArray [a, b])) = Inr (NumInt a, SolInt b)"
  by (induction j) (simp_all add: num_gt_def)

lemma unpack2_other_length: "length xs \<noteq> 2 \<Longrightarrow> unpack2 (RetArray xs) = Inl ValueError"
  by (cases "RetArray xs" rule: unpack2.cases) auto

lemma unpack2_arange:
  "unpack2 (RetArray [0..<n]) = (if n = 2 then Inr (NumInt 0, SolInt 1) else Inl ValueError)"
proof (cases "n = 2")
  case True
  have "[0..<2] = [0, Suc 0]" by (simp add: upt_rec)
  with True show ?thesis by simp
next
  case False
  have "length [0..<n] \<noteq> 2" using False by simp
  then have "unpack2 (RetArray [0..<n]) = Inl ValueError"
    by (rule unpack2_other_length)
  with False show ?thesis by simp
qed

lemma entrofy_full_panel:
  assumes "valid_input X k w q" and "k = int (n_participants X)"
    and "0 < nat (if pre_selects \<noteq> None then 1 else n_samples)"
  shows "entrofy X k w q pre_selects n_samples g =
           (if n_participants X = 2 then Some (Inr (NumInt 0, SolInt 1), g)
            else Some (Inl ValueError, g))"
proof -
  let ?n = "n_participants X"
  let ?m = "nat (if pre_selects \<noteq> None then 1 else n_samples)"
  have run: "u_entrofy X k w q pre_selects g = Some (Inr (RetArray [0..<?n]), g)" for g
    by (subst u_entrofy_valid[OF assms(1)]) (simp add: assms(2))
  have t: "trials (u_entrofy X k w q pre_selects) ?m g = Some (Inr (replicate ?m (RetArray [0..<?n])), g)"
    by (rule trials_const) (rule run)
  from assms(3) obtain j where j: "?m = Suc j" by (cases ?m) auto
  show ?thesis
  proof (cases "?n = 2")
    case True
    have a: "[0..<(2::nat)] = [0, Suc 0]" by (simp add: upt_rec)
    show ?thesis using t j True
      by (simp add: entrofy_def a best_of_same_pair)
  next
    case False
    then show ?thesis using t j unpack2_arange[of ?n]
      by (simp add: entrofy_def)
  qed
qed

lemma list_all_replicate: "list_all P (replicate n x) = (n = 0 \<or> P x)"
  by (induction n) auto

lemma valid_input_panel1: "valid_input panel1 1 None None"
  by (simp add: valid_input_def panel1_def default_w_def default_q_def)

lemma valid_input_panel2: "valid_input panel2 2 None None"
  by (simp add: valid_input_def panel2_def default_w_def default_q_def list_all_replicate)

lemma valid_input_panel3: "0 < k \<Longrightarrow> k \<le> 3 \<Longrightarrow> valid_input panel3 k None None"
  by (simp add: valid_input_def panel3_def default_w_def default_q_def list_all_replicate)

lemma n_panel1: "n_participants panel1 = 1"
  by (simp add: panel1_def)

lemma n_panel2: "n_participants panel2 = 2"
  by (simp add: panel2_def)

lemma n_panel3: "n_participants panel3 = 3"
  by (simp add: panel3_def)

lemma entrofy_keeps_pre_selects:
  assumes "valid_input X k w q" and "k < int (n_participants X)"
    and "valid_rows (n_participants X) ps"
  shows "\<exists>score idx g'.
           entrofy X k w q (Some ps) n_samples g =
             Some (Inr (NumFloat (Fin score), SolArray idx), g') \<and>
           set ps \<subseteq> int ` set idx"
proof -
  let ?Q = "\<lambda>idx. nat ` set ps \<subseteq> set idx"
  have pre: "case Some ps of None \<Rightarrow> True | Some ps \<Rightarrow> valid_rows (n_participants X) ps"
    using assms(3) by simp
  have trial: "\<exists>r g'. u_entrofy X k w q (Some ps) g = Some (Inr r, g') \<and>
                 (\<exists>s idx. r = RetTuple (Fin s) idx \<and> ?Q idx)" for g
  proof -
    from u_entrofy_trial[OF assms(1,2) pre, of g] obtain s idx g' where
      t: "u_entrofy X k w q (Some ps) g = Some (Inr (RetTuple (Fin s) idx), g')"
         "case Some ps of
              None \<Rightarrow> length idx = nat k
            | Some ps \<Rightarrow> nat ` set ps \<subseteq> set idx \<and> length idx = max (nat k) (card (set ps)) \<and>
                (if nat k \<le> card (set ps) then set idx = nat ` set ps else True)"
      by (elim exE conjE)
    from t(2) have "?Q idx" by simp
    with t(1) show ?thesis
      by (rule_tac x = "RetTuple (Fin s) idx" in exI, rule_tac x = g' in exI) simp
  qed
  have m: "0 < nat (if Some ps \<noteq> None then 1 else n_samples)" by simp
  from entrofy_of_trials[of X k w q "Some ps" ?Q n_samples g, OF trial m]
  obtain earlier score best later g' where
    e: "\<forall>x\<in>set (earlier @ (score, best) # later). ?Q (snd x)"
      "entrofy X k w q (Some ps) n_samples g = Some (Inr (NumFloat (Fin score), SolArray best), g')"
    by (elim exE conjE)
  from e(1) have q: "nat ` set ps \<subseteq> set best" by simp
  have "set ps \<subseteq> int ` set best"
  proof
    fix i assume i: "i \<in> set ps"
    then have "0 \<le> i" using assms(3) by (simp add: valid_rows_def list_all_iff)
    then have "i = int (nat i)" by simp
    moreover have "nat i \<in> set best" using i q by blast
    ultimately show "i \<in> int ` set best" by (rule image_eqI)
  qed
  with e(2) show ?thesis
    by (rule_tac x = score in exI, rule_tac x = best in exI, rule_tac x = g' in exI) simp
qed


lemma entrofy_best_trial:
  assumes "valid_input X k w q" and "k < int (n_participants X)"
    and "case pre_selects of None \<Rightarrow> 0 < n_samples | Some ps \<Rightarrow> valid_rows (n_participants X) ps"
  shows "\<exists>earlier score best later g'.
           trials (u_entrofy X k w q pre_selects) (nat (if pre_selects \<noteq> None then 1 else n_samples)) g =
             Some (Inr (map (\<lambda>(s, idx). RetTuple (Fin s) idx) (earlier @ (score, best) # later)), g') \<and>
           (\<forall>x\<in>set earlier. fst x < score) \<and> (\<forall>x\<in>set later. fst x \<le> score) \<and>
           entrofy X k w q pre_selects n_samples g = Some (Inr (NumFloat (Fin score), SolArray best), g')"
proof -
  have pre: "case pre_selects of None \<Rightarrow> True | Some ps \<Rightarrow> valid_rows (n_participants X) ps"
    using assms(3) by (cases pre_selects) simp_all
  have trial: "\<exists>r g'. u_entrofy X k w q pre_selects g = Some (Inr r, g') \<and>
                 (\<exists>s idx. r = RetTuple (Fin s) idx \<and> True)" for g
  proof -
    from u_entrofy_trial[OF assms(1,2) pre, of g] obtain s idx g' where
      t: "u_entrofy X k w q pre_selects g = Some (Inr (RetTuple (Fin s) idx), g')"
      by (elim exE conjE)
    then show ?thesis
      by (rule_tac x = "RetTuple (Fin s) idx" in exI, rule_tac x = g' in exI) simp
  qed
  have m: "0 < nat (if pre_selects \<noteq> None then 1 else n_samples)"
    using assms(3) by (cases pre_selects) simp_all
  from entrofy_of_trials[of X k w q pre_selects "\<lambda>idx. True" n_samples g, OF trial m]
  obtain earlier score best later g' where
    e: "trials (u_entrofy X k w q pre_selects) (nat (if pre_selects \<noteq> None then 1 else n_samples)) g =
             Some (Inr (map (\<lambda>(s, idx). RetTuple (Fin s) idx) (earlier @ (score, best) # later)), g')"
       "\<forall>x\<in>set earlier. fst x < score" "\<forall>x\<in>set later. fst x \<le> score"
       "entrofy X k w q pre_selects n_samples g = Some (Inr (NumFloat (Fin score), SolArray best), g')"
    by (elim exE conjE)
  show ?thesis
    apply (rule_tac x = earlier in exI)
    apply (rule_tac x = score in exI)
    apply (rule_tac x = best in exI)
    apply (rule_tac x = later in exI)
    apply (rule_tac x = g' in exI)
    using e apply (intro conjI)
    apply assumption+
    done
qed

section \<open>The claims about the result of \<^verbatim>\<open>entrofy\<close>\<close>

text \<open>
  Claim C1 says that with \<open>k = n\<close> the entry point returns a pair whose second component
  is the full range of row indices. It does not: \<^verbatim>\<open>_entrofy\<close> returns the bare array
  \<^verbatim>\<open>np.arange(n)\<close>, and \<^verbatim>\<open>max_score, best = results[0]\<close> unpacks that array.
  On a panel of one row the unpacking raises \<^verbatim>\<open>ValueError\<close>
  (lemma \<open>entrofy_full_panel\<close> gives every \<open>n\<close>).
\<close>

theorem entrofy_full_panel_raises:
  "entrofy panel1 1 None None None 1 rng0 = Some (Inl ValueError, rng0)"
proof -
  have "entrofy panel1 1 None None None 1 rng0 =
          (if n_participants panel1 = 2 then Some (Inr (NumInt 0, SolInt 1), rng0)
           else Some (Inl ValueError, rng0))"
    by (rule entrofy_full_panel[OF valid_input_panel1]) (simp_all add: n_panel1)
  then show ?thesis by (simp add: n_panel1)
qed




text \<open>
  Claim C3 says that for every valid input the returned score is the greatest of the
  trial scores, from the earliest trial that attains it. Lemma \<open>entrofy_best_trial\<close>
  proves this for \<open>0 < k < n\<close>. With \<open>k = n\<close> no trial has a score and the call
  raises \<^verbatim>\<open>ValueError\<close>, here on three rows and fifteen samples.
\<close>

theorem entrofy_full_panel_no_score:
  "entrofy panel3 3 None None None 15 rng0 = Some (Inl ValueError, rng0)"
proof -
  have v: "valid_input panel3 3 None None" by (rule valid_input_panel3) simp_all
  have "entrofy panel3 3 None None None 15 rng0 =
          (if n_participants panel3 = 2 then Some (Inr (NumInt 0, SolInt 1), rng0)
           else Some (Inl ValueError, rng0))"
    by (rule entrofy_full_panel[OF v]) (simp_all add: n_panel3)
  then show ?thesis by (simp add: n_panel3)
qed

text \<open>
  Claim C9 says that every pre-selected row is in the returned index array. Lemma
  \<open>entrofy_keeps_pre_selects\<close> proves this for \<open>0 < k < n\<close>. With \<open>k = n = 2\<close> the
  array \<^verbatim>\<open>[0, 1]\<close> is unpacked into the score 0 and the solution 1, an integer, so the
  pre-selected row 0 is not in what the call returns.
\<close>

theorem entrofy_full_panel_drops_pre_select:
  "entrofy panel2 2 None None (Some [0]) 15 rng0 = Some (Inr (NumInt 0, SolInt 1), rng0)"
proof -
  have "entrofy panel2 2 None None (Some [0]) 15 rng0 =
          (if n_participants panel2 = 2 then Some (Inr (NumInt 0, SolInt 1), rng0)
           else Some (Inl ValueError, rng0))"
    by (rule entrofy_full_panel[OF valid_input_panel2]) (simp_all add: n_panel2)
  then show ?thesis by (simp add: n_panel2)
qed

section \<open>The claims about one greedy run\<close>

lemma np_le_NaN_left: "np_le NaN z = (z = NaN)"
  by (simp add: np_le_def)















section \<open>The claims about errors\<close>

lemma list_ex_out_of_range:
  "list_ex (\<lambda>x. x < 0 \<or> 1 < x) q = (\<not> (list_all (\<lambda>x. x \<ge> 0) q \<and> list_all (\<lambda>x. x \<le> (1::real)) q))"
  by (auto simp: list_ex_iff list_all_iff not_le)

lemma u_entrofy_invalid:
  assumes "k \<le> 0 \<or> int (n_participants X) < k \<or>
           list_ex (\<lambda>x. x < 0) (default_w (n_attributes X) w) \<or>
           list_ex (\<lambda>x. x < 0 \<or> 1 < x) (default_q (n_attributes X) q) \<or>
           length (default_w (n_attributes X) w) \<noteq> n_attributes X \<or>
           length (default_q (n_attributes X) q) \<noteq> n_attributes X"
  shows "u_entrofy X k w q pre_selects g = Some (Inl AssertionError, g)"
  using assms unfolding u_entrofy_def Let_def list_ex_out_of_range
  by (auto simp: not_less)

lemma trials_first_raises:
  assumes "run g = Some (Inl e, g')" and "0 < m"
  shows "trials run m g = Some (Inl e, g')"
proof -
  from assms(2) obtain j where "m = Suc j" by (cases m) auto
  with assms(1) show ?thesis by simp
qed

text \<open>
  Claim C6, amended: when \<open>k \<le> 0\<close>, or \<open>k > n\<close>, or a weight is negative, or a target is
  outside \<open>[0, 1]\<close>, or \<open>w\<close> or \<open>q\<close> has not one entry per attribute,
  \<^verbatim>\<open>_entrofy\<close> raises \<^verbatim>\<open>AssertionError\<close> and leaves the random generator as it
  was (no seed is drawn, no iteration runs), and \<^verbatim>\<open>entrofy\<close> raises the same error to
  its caller whenever it runs at least one trial. The error is the same
  \<^verbatim>\<open>AssertionError\<close> for every condition, as the example after the witness shows.
\<close>

theorem invalid_input_raises_assertion_error:
  assumes "k \<le> 0 \<or> int (n_participants X) < k \<or>
           list_ex (\<lambda>x. x < 0) (default_w (n_attributes X) w) \<or>
           list_ex (\<lambda>x. x < 0 \<or> 1 < x) (default_q (n_attributes X) q) \<or>
           length (default_w (n_attributes X) w) \<noteq> n_attributes X \<or>
           length (default_q (n_attributes X) q) \<noteq> n_attributes X"
  shows "u_entrofy X k w q pre_selects g = Some (Inl AssertionError, g) \<and>
         (pre_selects \<noteq> None \<or> 0 < n_samples \<longrightarrow>
            entrofy X k w q pre_selects n_samples g = Some (Inl AssertionError, g))"
proof (intro conjI impI)
  show u: "u_entrofy X k w q pre_selects g = Some (Inl AssertionError, g)"
    by (rule u_entrofy_invalid[OF assms])
  assume "pre_selects \<noteq> None \<or> 0 < n_samples"
  then have "0 < nat (if pre_selects \<noteq> None then 1 else n_samples)" by auto
  from trials_first_raises[where run = "u_entrofy X k w q pre_selects", OF u this]
  show "entrofy X k w q pre_selects n_samples g = Some (Inl AssertionError, g)"
    by (simp add: entrofy_def)
qed

theorem invalid_input_raises_assertion_error_witness:
  "u_entrofy panel1 0 None None None rng0 = Some (Inl AssertionError, rng0) \<and>
   entrofy panel1 0 None None None 15 rng0 = Some (Inl AssertionError, rng0)"
  using invalid_input_raises_assertion_error[where X = panel1 and k = 0 and w = None and q = None
      and pre_selects = None and n_samples = 15 and g = rng0]
  by simp

text \<open>
  Against claim C6 as stated (a distinct error per violated condition): \<open>k = 0\<close>, a
  negative weight, a target of 1.5 and a weight vector of the wrong length all raise the
  same error value.
\<close>

theorem validation_errors_not_distinct:
  "u_entrofy panel1 0 None None None rng0 = Some (Inl AssertionError, rng0) \<and>
   u_entrofy panel1 1 (Some [- 1]) None None rng0 = Some (Inl AssertionError, rng0) \<and>
   u_entrofy panel1 1 None (Some [3 / 2]) None rng0 = Some (Inl AssertionError, rng0) \<and>
   u_entrofy panel1 1 (Some [1, 1]) None None rng0 = Some (Inl AssertionError, rng0)"
proof -
  have "u_entrofy panel1 0 None None None rng0 = Some (Inl AssertionError, rng0)"
    by (rule u_entrofy_invalid) simp
  moreover have "u_entrofy panel1 1 (Some [- 1]) None None rng0 = Some (Inl AssertionError, rng0)"
    by (rule u_entrofy_invalid) (simp add: default_w_def)
  moreover have "u_entrofy panel1 1 None (Some [3 / 2]) None rng0 = Some (Inl AssertionError, rng0)"
    by (rule u_entrofy_invalid) (simp add: default_q_def)
  moreover have "u_entrofy panel1 1 (Some [1, 1]) None None rng0 = Some (Inl AssertionError, rng0)"
    by (rule u_entrofy_invalid) (simp add: default_w_def n_panel1 panel1_def)
  ultimately show ?thesis by simp
qed

lemma length_broadcast:
  "broadcast xs ys = Inr zs \<Longrightarrow> length zs = (if length xs = 1 then length ys else length xs)"
  by (auto simp: broadcast_def split: if_splits)

text \<open>
  Claim C7, amended: \<^verbatim>\<open>obj\<close> raises \<^verbatim>\<open>ValueError\<close> exactly when \<open>p\<close> and \<open>q\<close>
  cannot be broadcast (their lengths differ and neither is 1) or the broadcast length is
  not the length of \<open>w\<close>; otherwise it returns a float. In particular it returns a
  float when the three lengths are equal, and also when \<open>p\<close> or \<open>q\<close> has length 1 and the
  other has the length of \<open>w\<close>. The model of \<^verbatim>\<open>obj\<close> is a function of its arguments
  only: it has no effect.
\<close>

theorem obj_shape_error:
  "if (length p = length q \<or> length p = 1 \<or> length q = 1) \<and>
      (if length p = 1 then length q else length p) = length w
   then (\<exists>v. obj p w q = Inr v)
   else obj p w q = Inl ValueError"
proof (cases "length p = length q \<or> length p = 1 \<or> length q = 1")
  case True
  then have "\<exists>zs. broadcast p q = Inr zs"
    by (auto simp: broadcast_def)
  then obtain zs where zs: "broadcast p q = Inr zs" ..
  from length_broadcast[OF zs] have l: "length zs = (if length p = 1 then length q else length p)" .
  show ?thesis
  proof (cases "(if length p = 1 then length q else length p) = length w")
    case True
    with l have "length (map (\<lambda>(a, b). H_entry a b) zs) = length w" by simp
    then have "\<exists>d. dot (map (\<lambda>(a, b). H_entry a b) zs) w = Inr d" by (simp add: dot_def)
    then have "\<exists>v. obj p w q = Inr v" using zs by (auto simp: obj_def)
    with True \<open>length p = length q \<or> length p = 1 \<or> length q = 1\<close> show ?thesis by simp
  next
    case False
    with l have "length (map (\<lambda>(a, b). H_entry a b) zs) \<noteq> length w" by simp
    then have "dot (map (\<lambda>(a, b). H_entry a b) zs) w = Inl ValueError" by (simp add: dot_def)
    then have "obj p w q = Inl ValueError" using zs by (simp add: obj_def)
    with False show ?thesis by simp
  qed
next
  case False
  then have "broadcast p q = Inl ValueError" by (simp add: broadcast_def)
  then have "obj p w q = Inl ValueError" by (simp add: obj_def)
  with False show ?thesis by simp
qed

text \<open>
  Against claim C7 as stated: with \<open>p\<close> and \<open>w\<close> of length 2 and \<open>q\<close> of length 1 the
  lengths are not all equal, and \<^verbatim>\<open>obj\<close> returns \<open>0.0\<close>.
\<close>

theorem obj_broadcasts_short_target:
  "obj [Fin (1 / 2), Fin (1 / 2)] [1, 1] [1 / 2] = Inr (Fin 0)"
proof -
  have "(0::real) \<le> 1 / 2" "(1::real) / 2 \<le> 1" by simp_all
  from H_entry_Fin[OF this this] have h: "H_entry (Fin (1 / 2)) (1 / 2) = Fin 0" by simp
  show ?thesis by (simp add: obj_def broadcast_def dot_def h)
qed

end
